theory Spec2Isabelle
  imports Main "HOL-Library.Word" "HOL-Library.Multiset"
begin

unbundle bit_operations_syntax

section \<open>Data model of message.go\<close>

text \<open>
  Bytes are \<open>8 word\<close>. \<open>COAPType\<close>, \<open>OptionID\<close> and \<open>MediaType\<close> are declared
  as \<open>uint8\<close>/\<open>byte\<close> in the source, so they are 8-bit words here as well: a
  \<open>Message\<close> whose \<open>Type\<close> is outside the four named constants is a value the
  Go type admits.  A Go \<open>string\<close> is an immutable byte sequence and the conversions
  \<open>[]byte(s)\<close> and \<open>string(b)\<close> keep the bytes, so strings are byte lists.
\<close>

type_synonym byte = "8 word"
type_synonym COAPType = "8 word"
type_synonym OptionID = "8 word"

text \<open>
  Go run-time panics and returned errors are kept apart.  The three anonymous
  \<open>errors.New\<close> values of \<open>parseMessage\<close> ("Short packet", "Invalid version",
  "Truncated") get a constructor each.
\<close>

datatype panic = IndexOutOfRange | SliceBoundsOutOfRange | InvalidOptionType

datatype error =
    TooManyoptions | OptionTooLong | OptionGapTooLarge
  | ShortPacket | InvalidVersion | Truncated

datatype failure = Error error | Panic panic

text \<open>
  \<open>Value interface{}\<close>: the dynamic types \<open>toBytes\<close> switches on, and \<open>VOther\<close>
  for every other dynamic type (the \<open>default\<close> branch).  Go's \<open>int\<close> and
  \<open>uint\<close> are taken as 64 bits wide.
\<close>

datatype val =
    VString "byte list"
  | VBytes "byte list"
  | VMediaType "8 word"
  | VInt "64 word"
  | VInt32 "32 word"
  | VUint "64 word"
  | VUint32 "32 word"
  | VOther

record coapOption =
  ID :: OptionID
  Value :: val

record Message =
  Type :: COAPType
  Code :: "8 word"
  MessageID :: "16 word"
  Payload :: "byte list"
  opts :: "coapOption list"

definition ContentType :: OptionID where "ContentType = 1"
definition MaxAge :: OptionID where "MaxAge = 2"
definition ProxyURI :: OptionID where "ProxyURI = 3"
definition ETag :: OptionID where "ETag = 4"
definition URIHost :: OptionID where "URIHost = 5"
definition LocationPath :: OptionID where "LocationPath = 6"
definition URIPort :: OptionID where "URIPort = 7"
definition LocationQuery :: OptionID where "LocationQuery = 8"
definition URIPath :: OptionID where "URIPath = 9"
definition Token :: OptionID where "Token = 11"
definition Accept :: OptionID where "Accept = 12"
definition IfMatch :: OptionID where "IfMatch = 13"
definition UriQuery :: OptionID where "UriQuery = 15"
definition IfNoneMatch :: OptionID where "IfNoneMatch = 21"

section \<open>Integers on the wire\<close>

text \<open>\<open>binary.BigEndian.PutUint16\<close>, \<open>PutUint32\<close>, \<open>Uint16\<close> and \<open>Uint32\<close>.\<close>

definition PutUint16 :: "16 word \<Rightarrow> byte list" where
  "PutUint16 v = [ucast (drop_bit 8 v), ucast v]"

definition PutUint32 :: "32 word \<Rightarrow> byte list" where
  "PutUint32 v = [ucast (drop_bit 24 v), ucast (drop_bit 16 v), ucast (drop_bit 8 v), ucast v]"

definition Uint16 :: "byte list \<Rightarrow> 16 word" where
  "Uint16 b = push_bit 8 (ucast (b ! 0)) OR ucast (b ! 1)"

definition Uint32 :: "byte list \<Rightarrow> 32 word" where
  "Uint32 b = push_bit 24 (ucast (b ! 0)) OR push_bit 16 (ucast (b ! 1))
              OR push_bit 8 (ucast (b ! 2)) OR ucast (b ! 3)"

definition encodeInt :: "32 word \<Rightarrow> byte list" where
  "encodeInt v =
     (if v = 0 then []
      else if v < 256 then [ucast v]
      else if v < 65536 then PutUint16 (ucast v)
      else if v < 16777216 then drop 1 (PutUint32 v)
      else PutUint32 v)"

text \<open>
  \<open>decodeInt\<close>: \<open>tmp[4-len(b):]\<close> has a negative bound when \<open>b\<close> is longer than
  four bytes, which is a Go run-time panic; otherwise \<open>copy\<close> leaves the first
  \<open>4 - len(b)\<close> bytes of \<open>tmp\<close> zero and \<open>Uint32\<close> reads a four-byte slice.
\<close>

definition decodeInt :: "byte list \<Rightarrow> failure + 32 word" where
  "decodeInt b =
     (if 4 < length b then Inl (Panic SliceBoundsOutOfRange)
      else Inr (Uint32 (replicate (4 - length b) 0 @ b)))"

fun toBytes :: "coapOption \<Rightarrow> failure + byte list" where
  "toBytes x =
     (case Value x of
        VString i \<Rightarrow> Inr i
      | VBytes i \<Rightarrow> Inr i
      | VMediaType i \<Rightarrow> Inr (encodeInt (ucast i))
      | VInt i \<Rightarrow> Inr (encodeInt (ucast i))
      | VInt32 i \<Rightarrow> Inr (encodeInt i)
      | VUint i \<Rightarrow> Inr (encodeInt (ucast i))
      | VUint32 i \<Rightarrow> Inr (encodeInt i)
      | VOther \<Rightarrow> Inl (Panic InvalidOptionType))"

section \<open>Sorting the options\<close>

text \<open>The \<open>sort.Interface\<close> methods of \<open>options\<close>.\<close>

definition Less :: "coapOption list \<Rightarrow> nat \<Rightarrow> nat \<Rightarrow> bool" where
  "Less os i j = (if ID (os ! i) = ID (os ! j) then i < j else ID (os ! i) < ID (os ! j))"

definition Swap :: "coapOption list \<Rightarrow> nat \<Rightarrow> nat \<Rightarrow> coapOption list" where
  "Swap os i j = os[i := os ! j, j := os ! i]"

text \<open>
  \<open>sort.Sort\<close> belongs to Go's standard library, not to the repository.  Its
  documented contract: it rearranges the data with \<open>Swap\<close> only, so that afterwards
  no element is \<open>Less\<close> than an earlier one, and "the sort is not guaranteed to be
  stable".  \<open>encodeMessage\<close> therefore takes the sorting function as a parameter
  \<open>srt\<close>, and \<open>sortPost\<close> is the contract.
\<close>

definition sortPost :: "coapOption list \<Rightarrow> coapOption list \<Rightarrow> bool" where
  "sortPost xs ys \<longleftrightarrow>
     mset ys = mset xs \<and> (\<forall>j \<in> {..<length ys}. \<forall>i \<in> {..<j}. \<not> Less ys j i)"

text \<open>
  The library's \<open>insertionSort\<close>, written over \<open>Less\<close> and \<open>Swap\<close>:
  \<^verbatim>\<open>for i := a + 1; i < b; i++ {
    for j := i; j > a && data.Less(j, j-1); j-- { data.Swap(j, j-1) } }\<close>
  Every Go release runs exactly this for at most six elements.
\<close>

fun insertionInner :: "coapOption list \<Rightarrow> nat \<Rightarrow> coapOption list" where
  "insertionInner os 0 = os"
| "insertionInner os (Suc j) =
     (if Less os (Suc j) j then insertionInner (Swap os (Suc j) j) j else os)"

definition insertionSort :: "coapOption list \<Rightarrow> coapOption list" where
  "insertionSort os = foldl insertionInner os [1..<length os]"

text \<open>
  Go 1.6 to 1.18 run, for at most twelve elements, one pass with gap 6 before the
  insertion sort:
  \<^verbatim>\<open>for i := a + 6; i < b; i++ {
    if data.Less(i, i-6) { data.Swap(i, i-6) } }
  insertionSort(data, a, b)\<close>
\<close>

definition gapPass :: "coapOption list \<Rightarrow> coapOption list" where
  "gapPass os = foldl (\<lambda>s i. if Less s i (i - 6) then Swap s i (i - 6) else s) os [6..<length os]"

definition shellSort :: "coapOption list \<Rightarrow> coapOption list" where
  "shellSort os = insertionSort (gapPass os)"

section \<open>encodeMessage\<close>

text \<open>
  The loop over the sorted options.  \<open>prev\<close> is a Go \<open>int\<close>; \<open>byte(...)\<close>
  truncates to eight bits and \<open><<\<close> shifts within the byte.  The bytes written to
  \<open>buf\<close> are returned; on the gap error the function returns without them.
\<close>

fun encodeOptions :: "int \<Rightarrow> coapOption list \<Rightarrow> failure + byte list" where
  "encodeOptions prev [] = Inr []"
| "encodeOptions prev (x # xs) =
     (case toBytes x of
        Inl f \<Rightarrow> Inl f
      | Inr b \<Rightarrow>
          let d = uint (ID x) - prev;
              hdr = (if 15 < length b
                     then [push_bit 4 (word_of_int d) OR 15, word_of_int (int (length b) - 15)]
                     else [push_bit 4 (word_of_int d) OR word_of_nat (length b)])
          in if 15 < d then Inl (Error OptionGapTooLarge)
             else (case encodeOptions (uint (ID x)) xs of
                     Inl f \<Rightarrow> Inl f
                   | Inr rest \<Rightarrow> Inr (hdr @ b @ rest)))"

definition encodeMessage ::
  "(coapOption list \<Rightarrow> coapOption list) \<Rightarrow> Message \<Rightarrow> failure + byte list" where
  "encodeMessage srt m =
     (if 14 < length (opts m) then Inl (Error TooManyoptions)
      else
        let tmpbuf = PutUint16 (MessageID m);
            hdr = [push_bit 6 1 OR push_bit 4 (Type m) OR word_of_nat (15 AND length (opts m)),
                   Code m, tmpbuf ! 0, tmpbuf ! 1]
        in case encodeOptions 0 (srt (opts m)) of
             Inl f \<Rightarrow> Inl f
           | Inr ob \<Rightarrow> Inr (hdr @ ob @ Payload m))"

section \<open>parseMessage\<close>

text \<open>The \<open>switch oid\<close> that gives a parsed option its value.\<close>

definition decodeValue :: "OptionID \<Rightarrow> byte list \<Rightarrow> failure + val" where
  "decodeValue oid b =
     (if oid \<in> {ContentType, MaxAge, URIPort, Accept}
      then (case decodeInt b of Inl f \<Rightarrow> Inl f | Inr v \<Rightarrow> Inr (VUint32 v))
      else if oid \<in> {ProxyURI, URIHost, LocationPath, LocationQuery, URIPath, UriQuery}
      then Inr (VString b)
      else Inr (VBytes b))"

text \<open>
  The option loop \<open>for i := 0; i < opCount && len(b) > 0; i++\<close>: the first
  argument is the number of iterations still allowed.  \<open>b[0]\<close> on an empty slice
  is a Go run-time panic.

  Where \<open>parseMessage\<close> returns an error, the Go function returns \<open>rv\<close> as
  far as it is filled in together with the error (the zero \<open>Message\<close> for the
  first two checks); its only caller drops it.  The model returns the failure alone.
\<close>

fun parseOptions :: "nat \<Rightarrow> int \<Rightarrow> byte list \<Rightarrow> failure + (coapOption list \<times> byte list)" where
  "parseOptions 0 prev b = Inr ([], b)"
| "parseOptions (Suc n) prev [] = Inr ([], [])"
| "parseOptions (Suc n) prev (h # t) =
     (let oid = (word_of_int (prev + uint (drop_bit 4 h)) :: OptionID);
          l = unat (h AND 15)
      in case (if 14 < l
               then (case t of
                       [] \<Rightarrow> Inl (Panic IndexOutOfRange)
                     | e # t' \<Rightarrow> Inr (l + unat e, t'))
               else Inr (l, t)) of
           Inl f \<Rightarrow> Inl f
         | Inr (l', b') \<Rightarrow>
             if length b' < l' then Inl (Error Truncated)
             else (case decodeValue oid (take l' b') of
                     Inl f \<Rightarrow> Inl f
                   | Inr v \<Rightarrow>
                       (case parseOptions n (uint oid) (drop l' b') of
                          Inl f \<Rightarrow> Inl f
                        | Inr (os, rest) \<Rightarrow> Inr (\<lparr>ID = oid, Value = v\<rparr> # os, rest))))"

definition parseMessage :: "byte list \<Rightarrow> failure + Message" where
  "parseMessage data =
     (if length data < 6 then Inl (Error ShortPacket)
      else if drop_bit 6 (data ! 0) \<noteq> 1 then Inl (Error InvalidVersion)
      else
        let opCount = unat (data ! 0 AND 15)
        in if 14 < opCount then Inl (Error TooManyoptions)
           else (case parseOptions opCount 0 (drop 4 data) of
                   Inl f \<Rightarrow> Inl f
                 | Inr (os, rest) \<Rightarrow>
                     Inr \<lparr>Type = drop_bit 4 (data ! 0) AND 3,
                          Code = data ! 1,
                          MessageID = Uint16 (take 2 (drop 2 data)),
                          Payload = rest,
                          opts = os\<rparr>))"

section \<open>Messages that survive the wire\<close>

text \<open>\<open>int(o.ID)\<close>, the identifier as both functions compute with it.\<close>

definition optID :: "coapOption \<Rightarrow> int" where
  "optID x = uint (ID x)"

text \<open>
  Every identifier of the list exceeds its predecessor (at first \<open>prev\<close>) by at
  most 15.
\<close>

fun deltasOK :: "int \<Rightarrow> int list \<Rightarrow> bool" where
  "deltasOK prev [] = True"
| "deltasOK prev (i # is) = (i - prev \<le> 15 \<and> deltasOK i is)"

text \<open>
  \<open>wireTyped\<close>: the value has the dynamic type that the \<open>switch oid\<close> of
  \<open>parseMessage\<close> gives an option of this identifier (\<open>uint32\<close>, \<open>string\<close> or
  \<open>[]byte\<close>).  \<open>wireLenOK\<close>: the value bytes are not exactly 15 and at most 270
  long.
\<close>

definition wireTyped :: "coapOption \<Rightarrow> bool" where
  "wireTyped x =
     (case Value x of
        VUint32 v \<Rightarrow> ID x \<in> {ContentType, MaxAge, URIPort, Accept}
      | VString s \<Rightarrow> ID x \<in> {ProxyURI, URIHost, LocationPath, LocationQuery, URIPath, UriQuery}
      | VBytes b \<Rightarrow> ID x \<notin> {ContentType, MaxAge, URIPort, Accept} \<and>
          ID x \<notin> {ProxyURI, URIHost, LocationPath, LocationQuery, URIPath, UriQuery}
      | _ \<Rightarrow> False)"

definition wireLenOK :: "coapOption \<Rightarrow> bool" where
  "wireLenOK x =
     (case toBytes x of
        Inl f \<Rightarrow> False
      | Inr b \<Rightarrow> length b \<noteq> 15 \<and> length b \<le> 270)"

section \<open>Example inputs\<close>

definition opt15 :: "coapOption list" where
  "opt15 = replicate 15 \<lparr>ID = URIPath, Value = VString [0x61]\<rparr>"

definition msgEmpty :: Message where
  "msgEmpty = \<lparr>Type = 0, Code = 1, MessageID = 7, Payload = [], opts = []\<rparr>"

definition msgOneByte :: Message where
  "msgOneByte = \<lparr>Type = 0, Code = 1, MessageID = 7, Payload = [0], opts = []\<rparr>"

definition msgType8 :: Message where
  "msgType8 = \<lparr>Type = 8, Code = 1, MessageID = 7, Payload = [0, 0], opts = []\<rparr>"

definition msgPayload :: Message where
  "msgPayload = \<lparr>Type = 1, Code = 69, MessageID = 0x1234, Payload = [0, 1, 0, 0xFF], opts = []\<rparr>"

definition msgEtag14 :: Message where
  "msgEtag14 = \<lparr>Type = 0, Code = 1, MessageID = 7, Payload = [0xAA],
     opts = [\<lparr>ID = ETag, Value = VBytes (replicate 14 0x62)\<rparr>]\<rparr>"

definition msgEtag15 :: Message where
  "msgEtag15 = \<lparr>Type = 0, Code = 1, MessageID = 7, Payload = [0xAA],
     opts = [\<lparr>ID = ETag, Value = VBytes (replicate 15 0x62)\<rparr>]\<rparr>"

definition msgEtag16 :: Message where
  "msgEtag16 = \<lparr>Type = 0, Code = 1, MessageID = 7, Payload = [0xAA],
     opts = [\<lparr>ID = ETag, Value = VBytes (replicate 16 0x62)\<rparr>]\<rparr>"

definition msgRT :: Message where
  "msgRT = \<lparr>Type = 1, Code = 2, MessageID = 0x1234, Payload = [0x68, 0, 0x69],
     opts = [\<lparr>ID = URIPath, Value = VString [0x61]\<rparr>,
             \<lparr>ID = ContentType, Value = VUint32 50\<rparr>,
             \<lparr>ID = URIPath, Value = VString [0x62]\<rparr>,
             \<lparr>ID = ETag, Value = VBytes (replicate 16 0x77)\<rparr>,
             \<lparr>ID = MaxAge, Value = VUint32 600\<rparr>]\<rparr>"

definition msgGap1 :: Message where
  "msgGap1 = \<lparr>Type = 0, Code = 1, MessageID = 7, Payload = [],
     opts = [\<lparr>ID = IfNoneMatch, Value = VBytes []\<rparr>,
             \<lparr>ID = ContentType, Value = VUint32 0\<rparr>]\<rparr>"

definition msgGap2 :: Message where
  "msgGap2 = \<lparr>Type = 0, Code = 1, MessageID = 7, Payload = [],
     opts = [\<lparr>ID = IfNoneMatch, Value = VBytes []\<rparr>]\<rparr>"

definition msgGap15 :: Message where
  "msgGap15 = \<lparr>Type = 0, Code = 1, MessageID = 7, Payload = [],
     opts = replicate 15 \<lparr>ID = IfNoneMatch, Value = VBytes []\<rparr>\<rparr>"

definition msgGapOther :: Message where
  "msgGapOther = \<lparr>Type = 0, Code = 1, MessageID = 7, Payload = [],
     opts = [\<lparr>ID = IfNoneMatch, Value = VBytes []\<rparr>,
             \<lparr>ID = ContentType, Value = VOther\<rparr>]\<rparr>"

definition msgPath :: Message where
  "msgPath = \<lparr>Type = 0, Code = 1, MessageID = 7, Payload = [],
     opts = [\<lparr>ID = URIPath, Value = VString [0x61]\<rparr>,
             \<lparr>ID = URIPath, Value = VString [0x62]\<rparr>,
             \<lparr>ID = ContentType, Value = VUint32 0\<rparr>,
             \<lparr>ID = MaxAge, Value = VUint32 60\<rparr>,
             \<lparr>ID = ETag, Value = VBytes [0x65]\<rparr>,
             \<lparr>ID = URIHost, Value = VString [0x68]\<rparr>,
             \<lparr>ID = URIPort, Value = VUint32 80\<rparr>]\<rparr>"

definition msgPath15 :: Message where
  "msgPath15 = \<lparr>Type = 0, Code = 1, MessageID = 7, Payload = [0xAA],
     opts = [\<lparr>ID = URIPath, Value = VString (replicate 15 0x61)\<rparr>]\<rparr>"

definition msgShort :: Message where
  "msgShort = \<lparr>Type = 0, Code = 1, MessageID = 7, Payload = [],
     opts = [\<lparr>ID = ContentType, Value = VUint32 0\<rparr>]\<rparr>"

definition msgType4 :: Message where
  "msgType4 = \<lparr>Type = 4, Code = 1, MessageID = 7, Payload = [1, 2], opts = []\<rparr>"

definition msgIntAge :: Message where
  "msgIntAge = \<lparr>Type = 0, Code = 1, MessageID = 7, Payload = [1, 2],
     opts = [\<lparr>ID = MaxAge, Value = VInt 60\<rparr>]\<rparr>"

definition msgLong :: Message where
  "msgLong = \<lparr>Type = 0, Code = 1, MessageID = 7, Payload = [],
     opts = [\<lparr>ID = ProxyURI, Value = VString (replicate 271 0x61)\<rparr>]\<rparr>"

section \<open>Auxiliary facts\<close>

lemmas OptionID_defs =
  ContentType_def MaxAge_def ProxyURI_def ETag_def URIHost_def LocationPath_def
  URIPort_def LocationQuery_def URIPath_def Token_def Accept_def IfMatch_def
  UriQuery_def IfNoneMatch_def

lemma Uint32_PutUint32: "Uint32 (PutUint32 v) = v"
  unfolding Uint32_def PutUint32_def
  apply (rule bit_word_eqI)
  subgoal for n
    apply (cases "n < 8"; cases "n < 16"; cases "n < 24")
    apply (auto simp add: bit_simps)
    done
  done

lemma unat_byte_of:
  "unat (ucast (drop_bit k (v :: 32 word)) :: 8 word) = unat v div 2 ^ k mod 256"
  by (simp add: unsigned_ucast_eq unat_drop_bit_eq take_bit_eq_mod) (simp add: drop_bit_eq_div)

lemma unat_low_byte: "unat (ucast (v :: 32 word) :: 8 word) = unat v mod 256"
  by (simp add: unsigned_ucast_eq take_bit_eq_mod)

lemma PutUint16_ucast: "PutUint16 (ucast (v::32 word)) = [ucast (drop_bit 8 v), ucast v]"
  unfolding PutUint16_def
  by (auto intro!: bit_word_eqI simp add: bit_simps)

text \<open>The five branches of \<open>encodeInt\<close>, with the comparisons read as numbers.\<close>

lemma encodeInt_cases:
  "encodeInt v =
    (if unat v = 0 then []
     else if unat v < 256 then [ucast v]
     else if unat v < 65536 then [ucast (drop_bit 8 v), ucast v]
     else if unat v < 16777216 then [ucast (drop_bit 16 v), ucast (drop_bit 8 v), ucast v]
     else [ucast (drop_bit 24 v), ucast (drop_bit 16 v), ucast (drop_bit 8 v), ucast v])"
  by (simp add: encodeInt_def word_less_nat_alt PutUint16_ucast PutUint32_def unat_eq_0)

lemma length_encodeInt_le: "length (encodeInt v) \<le> 4"
  by (simp add: encodeInt_cases)

lemma byte_zero_iff: "(b :: 8 word) = 0 \<longleftrightarrow> unat b = 0"
  by (simp add: unat_eq_0)

lemma replicate_small:
  "replicate 4 x = [x, x, x, x]" "replicate 3 x = [x, x, x]" "replicate 2 x = [x, x]"
  by (simp_all add: numeral_eq_Suc)

lemma pad_encodeInt: "replicate (4 - length (encodeInt v)) 0 @ encodeInt v = PutUint32 v"
proof -
  have hi: "ucast (drop_bit k v) = (0 :: 8 word)" if "unat v < 2 ^ k" for k
    using that by (simp add: byte_zero_iff unat_byte_of)
  have "ucast (drop_bit 24 v) = (0 :: 8 word)" if "unat v < 16777216"
    using that hi [of 24] by simp
  moreover have "ucast (drop_bit 16 v) = (0 :: 8 word)" if "unat v < 65536"
    using that hi [of 16] by simp
  moreover have "ucast (drop_bit 8 v) = (0 :: 8 word)" if "unat v < 256"
    using that hi [of 8] by simp
  moreover have "ucast v = (0 :: 8 word)" if "unat v = 0"
    using that by (simp add: unat_eq_0)
  ultimately show ?thesis
    by (simp add: encodeInt_cases PutUint32_def replicate_small)
qed

lemma decode_after_encode: "decodeInt (encodeInt v) = Inr v"
  using length_encodeInt_le [of v]
  by (simp add: decodeInt_def pad_encodeInt Uint32_PutUint32)

lemma be_nat4:
  fixes n :: nat
  shows "16777216 * (n div 16777216) + 65536 * (n div 65536 mod 256)
         + 256 * (n div 256 mod 256) + n mod 256 = n"
proof -
  define a where "a = n div 256"
  define b where "b = a div 256"
  define c where "c = b div 256"
  define r0 where "r0 = n mod 256"
  define r1 where "r1 = a mod 256"
  define r2 where "r2 = b mod 256"
  have 1: "n = 256 * a + r0" by (simp add: a_def r0_def)
  have 2: "a = 256 * b + r1" by (simp add: b_def r1_def)
  have 3: "b = 256 * c + r2" by (simp add: c_def r2_def)
  have 4: "n div 65536 = b"
    using div_mult2_eq [of n 256 256] by (simp add: a_def b_def)
  have 5: "n div 16777216 = c"
    using div_mult2_eq [of n 65536 256] by (simp add: 4 c_def)
  have "16777216 * c + 65536 * r2 + 256 * r1 + r0 = n"
    using 1 2 3 by linarith
  then show ?thesis
    by (simp add: 4 5 r2_def r1_def r0_def a_def)
qed

lemma top_byte_nonzero:
  fixes n :: nat
  assumes "256 ^ j \<le> n" and "n < 256 ^ Suc j"
  shows "n div 256 ^ j mod 256 \<noteq> 0"
proof -
  have "n div 256 ^ j < 256"
    using assms(2) by (simp add: less_mult_imp_div_less mult.commute)
  moreover have "0 < n div 256 ^ j"
    using assms(1) by (simp add: div_greater_zero_iff)
  ultimately show ?thesis by simp
qed

lemma top_byte_small:
  fixes n :: nat
  assumes "n < 256 ^ Suc j"
  shows "n div 256 ^ j mod 256 = n div 256 ^ j"
  using assms by (simp add: less_mult_imp_div_less mult.commute)

lemma unat32_bound: "unat (v :: 32 word) < 4294967296"
  using unsigned_less [of v, where ?'a = nat] by simp

lemma encodeInt_value_aux: "foldl (\<lambda>a b. 256 * a + unat b) 0 (encodeInt v) = unat v"
proof -
  define n where "n = unat v"
  define f where "f = (\<lambda>a (b :: 8 word). 256 * a + unat b)"
  have b0: "unat (ucast v :: 8 word) = n mod 256"
    by (simp only: unat_low_byte n_def)
  have b1: "unat (ucast (drop_bit 8 v) :: 8 word) = n div 256 mod 256"
    using unat_byte_of [of 8 v] by (simp add: n_def)
  have b2: "unat (ucast (drop_bit 16 v) :: 8 word) = n div 65536 mod 256"
    using unat_byte_of [of 16 v] by (simp add: n_def)
  have b3: "unat (ucast (drop_bit 24 v) :: 8 word) = n div 16777216 mod 256"
    using unat_byte_of [of 24 v] by (simp add: n_def)
  have top: "n div 16777216 mod 256 = n div 16777216"
    using top_byte_small [of n 3] unat32_bound [of v] by (simp add: n_def)
  have be: "16777216 * (n div 16777216) + 65536 * (n div 65536 mod 256)
         + 256 * (n div 256 mod 256) + n mod 256 = n"
    by (rule be_nat4)
  have f1: "foldl f 0 [x] = unat x" for x by (simp add: f_def)
  have f2: "foldl f 0 [y, x] = 256 * unat y + unat x" for x y by (simp add: f_def)
  have f3: "foldl f 0 [z, y, x] = 65536 * unat z + 256 * unat y + unat x" for x y z
    by (simp add: f_def)
  have f4: "foldl f 0 [w, z, y, x] = 16777216 * unat w + 65536 * unat z + 256 * unat y + unat x"
    for x y z w by (simp add: f_def)
  consider (z) "n = 0" | (s1) "0 < n" "n < 256" | (s2) "256 \<le> n" "n < 65536"
    | (s3) "65536 \<le> n" "n < 16777216" | (s4) "16777216 \<le> n" by linarith
  then have "foldl f 0 (encodeInt v) = n"
  proof cases
    case z
    then show ?thesis by (simp add: encodeInt_cases n_def)
  next
    case s1
    then have "encodeInt v = [ucast v]" by (simp add: encodeInt_cases n_def)
    then have "foldl f 0 (encodeInt v) = n mod 256" by (simp only: f1 b0)
    with s1 show ?thesis by simp
  next
    case s2
    then have "encodeInt v = [ucast (drop_bit 8 v), ucast v]"
      by (simp add: encodeInt_cases n_def)
    then have "foldl f 0 (encodeInt v) = 256 * (n div 256 mod 256) + n mod 256"
      by (simp only: f2 b0 b1)
    with s2 be show ?thesis by simp
  next
    case s3
    then have "encodeInt v = [ucast (drop_bit 16 v), ucast (drop_bit 8 v), ucast v]"
      by (simp add: encodeInt_cases n_def)
    then have "foldl f 0 (encodeInt v)
        = 65536 * (n div 65536 mod 256) + 256 * (n div 256 mod 256) + n mod 256"
      by (simp only: f3 b0 b1 b2)
    with s3 be show ?thesis by simp
  next
    case s4
    then have "encodeInt v
        = [ucast (drop_bit 24 v), ucast (drop_bit 16 v), ucast (drop_bit 8 v), ucast v]"
      by (simp add: encodeInt_cases n_def)
    then have "foldl f 0 (encodeInt v)
        = 16777216 * (n div 16777216 mod 256) + 65536 * (n div 65536 mod 256)
          + 256 * (n div 256 mod 256) + n mod 256"
      by (simp only: f4 b0 b1 b2 b3)
    with be top show ?thesis by simp
  qed
  then show ?thesis by (simp only: f_def n_def)
qed

lemma encodeInt_lead_aux: "encodeInt v \<noteq> [] \<Longrightarrow> hd (encodeInt v) \<noteq> 0"
proof -
  define n where "n = unat v"
  have b0: "unat (ucast v :: 8 word) = n mod 256"
    by (simp only: unat_low_byte n_def)
  have b1: "unat (ucast (drop_bit 8 v) :: 8 word) = n div 256 mod 256"
    using unat_byte_of [of 8 v] by (simp add: n_def)
  have b2: "unat (ucast (drop_bit 16 v) :: 8 word) = n div 65536 mod 256"
    using unat_byte_of [of 16 v] by (simp add: n_def)
  have b3: "unat (ucast (drop_bit 24 v) :: 8 word) = n div 16777216 mod 256"
    using unat_byte_of [of 24 v] by (simp add: n_def)
  have t0: "n mod 256 \<noteq> 0" if "0 < n" "n < 256" using that by simp
  have t1: "n div 256 mod 256 \<noteq> 0" if "256 \<le> n" "n < 65536"
    using that top_byte_nonzero [of 1 n] by simp
  have t2: "n div 65536 mod 256 \<noteq> 0" if "65536 \<le> n" "n < 16777216"
    using that top_byte_nonzero [of 2 n] by simp
  have t3: "n div 16777216 mod 256 \<noteq> 0" if "16777216 \<le> n"
    using that top_byte_nonzero [of 3 n] unat32_bound [of v] by (simp add: n_def)
  assume ne: "encodeInt v \<noteq> []"
  consider (z) "n = 0" | (s1) "0 < n" "n < 256" | (s2) "256 \<le> n" "n < 65536"
    | (s3) "65536 \<le> n" "n < 16777216" | (s4) "16777216 \<le> n" by linarith
  then have "unat (hd (encodeInt v)) \<noteq> 0"
  proof cases
    case z
    with ne show ?thesis by (simp add: encodeInt_cases n_def)
  next
    case s1
    then have "hd (encodeInt v) = ucast v" by (simp add: encodeInt_cases n_def)
    with t0 [OF s1] show ?thesis by (simp only: b0 simp_thms)
  next
    case s2
    then have "hd (encodeInt v) = ucast (drop_bit 8 v)" by (simp add: encodeInt_cases n_def)
    with t1 [OF s2] show ?thesis by (simp only: b1 simp_thms)
  next
    case s3
    then have "hd (encodeInt v) = ucast (drop_bit 16 v)" by (simp add: encodeInt_cases n_def)
    with t2 [OF s3] show ?thesis by (simp only: b2 simp_thms)
  next
    case s4
    then have "hd (encodeInt v) = ucast (drop_bit 24 v)" by (simp add: encodeInt_cases n_def)
    with t3 [OF s4] show ?thesis by (simp only: b3 simp_thms)
  qed
  then show ?thesis by (simp only: byte_zero_iff simp_thms)
qed
subsection \<open>Header bytes\<close>

lemma opt_hdr_delta:
  assumes "0 \<le> d" "d \<le> 15" "l < 16"
  shows "uint (drop_bit 4 (push_bit 4 (word_of_int d) OR word_of_nat l :: 8 word)) = d"
proof -
  have d: "d = take_bit 4 d" using assms by (simp add: take_bit_int_eq_self)
  have l: "l = take_bit 4 l" using assms by (simp add: take_bit_nat_eq_self)
  have "drop_bit 4 (push_bit 4 (word_of_int (take_bit 4 d)) OR word_of_nat (take_bit 4 l) :: 8 word)
        = word_of_int (take_bit 4 d)"
    by (rule bit_word_eqI) (auto simp add: bit_simps)
  then have "drop_bit 4 (push_bit 4 (word_of_int d) OR word_of_nat l :: 8 word) = word_of_int d"
    using d l by simp
  moreover have "uint (word_of_int d :: 8 word) = d"
    using assms by (simp add: uint_word_of_int take_bit_int_eq_self)
  ultimately show ?thesis by simp
qed

lemma opt_hdr_len:
  assumes "l < 16"
  shows "unat ((push_bit 4 w OR word_of_nat l :: 8 word) AND 15) = l"
proof -
  have l: "l = take_bit 4 l" using assms by (simp add: take_bit_nat_eq_self)
  have "(push_bit 4 w OR word_of_nat (take_bit 4 l) :: 8 word) AND mask 4 = word_of_nat (take_bit 4 l)"
    by (rule bit_word_eqI) (auto simp add: bit_simps)
  then have "(push_bit 4 w OR word_of_nat l :: 8 word) AND 15 = word_of_nat l"
    using l by (simp add: mask_eq_exp_minus_1)
  moreover have "unat (word_of_nat l :: 8 word) = l"
    using assms by (simp add: unat_of_nat)
  ultimately show ?thesis by simp
qed

lemma and15_nat: "15 AND (n::nat) = take_bit 4 n"
proof -
  have "take_bit 4 n = n AND mask 4" by (rule take_bit_eq_mask)
  also have "mask 4 = (15::nat)" by (simp add: mask_eq_exp_minus_1)
  finally show ?thesis by (simp add: and.commute)
qed

lemma msg_hdr_version:
  assumes "\<not> bit T 3"
  shows "drop_bit 6 (push_bit 6 1 OR push_bit 4 T OR word_of_nat (15 AND n) :: 8 word) = 1"
proof -
  show ?thesis
    unfolding and15_nat
    apply (rule bit_word_eqI)
    subgoal for k
      using assms
      apply (cases "k = 0"; cases "k = 1")
      apply (auto simp add: bit_simps numeral_3_eq_3)
      done
    done
qed

lemma take_bit2_le3: "(T :: 8 word) \<le> 3 \<Longrightarrow> take_bit 2 T = T"
proof -
  assume "T \<le> 3"
  then have "unat T < 4" by (simp add: word_le_nat_alt)
  then have "unat (take_bit 2 T) = unat T"
    by (simp add: take_bit_eq_mod unat_mod_distrib)
  then show ?thesis by (simp only: word_unat_eq_iff)
qed

lemma bit_le3: "(T :: 8 word) \<le> 3 \<Longrightarrow> bit T k \<longleftrightarrow> k < 2 \<and> bit T k"
proof -
  assume "T \<le> 3"
  then have e: "take_bit 2 T = T" by (rule take_bit2_le3)
  have "bit (take_bit 2 T) k \<longleftrightarrow> k < 2 \<and> bit T k"
    by (simp only: bit_take_bit_iff)
  then show ?thesis by (simp only: e)
qed

lemma msg_hdr_count:
  "unat ((push_bit 6 w OR push_bit 4 T OR word_of_nat (15 AND n) :: 8 word) AND 15) = n mod 16"
proof -
  have "(push_bit 6 w OR push_bit 4 T OR word_of_nat (take_bit 4 n) :: 8 word) AND mask 4
        = word_of_nat (take_bit 4 n)"
    by (rule bit_word_eqI) (auto simp add: bit_simps)
  then have "(push_bit 6 w OR push_bit 4 T OR word_of_nat (15 AND n) :: 8 word) AND 15
        = word_of_nat (take_bit 4 n)"
    by (simp add: and15_nat mask_eq_exp_minus_1)
  moreover have "unat (word_of_nat (take_bit 4 n) :: 8 word) = n mod 16"
    by (simp add: unat_of_nat take_bit_eq_mod)
  ultimately show ?thesis by simp
qed

lemma msg_hdr_type:
  assumes "T \<le> 3"
  shows "drop_bit 4 (push_bit 6 1 OR push_bit 4 T OR word_of_nat (15 AND n) :: 8 word) AND 3 = T"
proof -
  have t: "bit T k \<longleftrightarrow> k < 2 \<and> bit T k" for k
    using assms by (rule bit_le3)
  have "drop_bit 4 (push_bit 6 1 OR push_bit 4 T OR word_of_nat (take_bit 4 n) :: 8 word) AND mask 2 = T"
    apply (rule bit_word_eqI)
    subgoal for k
      using t [of k]
      apply (cases "k = 0"; cases "k = 1")
      apply (auto simp add: bit_simps)
      done
    done
  then show ?thesis by (simp add: and15_nat mask_eq_exp_minus_1)
qed

lemma type_le3_bit3: "(T :: 8 word) \<le> 3 \<Longrightarrow> \<not> bit T 3"
proof -
  assume "T \<le> 3"
  then show ?thesis using bit_le3 [of T 3] by simp
qed

lemma Uint16_PutUint16: "Uint16 (PutUint16 v) = v"
  unfolding Uint16_def PutUint16_def
  apply (rule bit_word_eqI)
  subgoal for n
    apply (cases "n < 8")
    apply (auto simp add: bit_simps)
    done
  done

lemma sortPost_Nil: "sortPost [] ys \<Longrightarrow> ys = []"
  by (simp add: sortPost_def)

lemma Uint16_two: "Uint16 [PutUint16 v ! 0, PutUint16 v ! Suc 0] = v"
  using Uint16_PutUint16 [of v] by (simp add: PutUint16_def)

text \<open>What \<open>parseMessage\<close> does with a header as \<open>encodeMessage\<close> writes it.\<close>

lemma parseMessage_encoded:
  assumes "\<not> bit T 3" and "n \<le> 14" and "2 \<le> length rest"
  shows "parseMessage ((push_bit 6 1 OR push_bit 4 T OR word_of_nat (15 AND n)) # c # PutUint16 i ! 0 # PutUint16 i ! 1 # rest)
       = (case parseOptions n 0 rest of
            Inl f \<Rightarrow> Inl f
          | Inr (os, p) \<Rightarrow>
              Inr \<lparr>Type = drop_bit 4 (push_bit 6 1 OR push_bit 4 T OR word_of_nat (15 AND n)) AND 3,
                   Code = c, MessageID = i, Payload = p, opts = os\<rparr>)"
proof -
  define H :: "8 word" where "H = push_bit 6 1 OR push_bit 4 T OR word_of_nat (15 AND n)"
  have v: "drop_bit 6 H = 1" unfolding H_def using assms(1) by (rule msg_hdr_version)
  have k: "unat (H AND 15) = n" unfolding H_def using assms(2) by (simp only: msg_hdr_count) simp
  show ?thesis
    unfolding H_def [symmetric]
    using assms(2,3) by (simp add: parseMessage_def v k Uint16_two split: sum.splits prod.splits)
qed

subsection \<open>The contract of the sort\<close>

lemma sortPost_mset: "sortPost xs ys \<Longrightarrow> mset ys = mset xs"
  by (simp add: sortPost_def)

lemma sortPost_length: "sortPost xs ys \<Longrightarrow> length ys = length xs"
  by (metis sortPost_mset size_mset)

lemma sortPost_set: "sortPost xs ys \<Longrightarrow> set ys = set xs"
  by (metis sortPost_mset set_mset_mset)

lemma sortPost_sorted:
  assumes "sortPost xs ys"
  shows "sorted (map optID ys)"
proof -
  have "optID (ys ! i) \<le> optID (ys ! j)" if "i < j" "j < length ys" for i j
  proof -
    have "\<not> Less ys j i" using assms that by (simp add: sortPost_def)
    then show ?thesis
      using that by (auto simp add: Less_def optID_def word_le_def word_less_def split: if_splits)
  qed
  then show ?thesis by (simp add: sorted_iff_nth_mono_less)
qed

lemma sortPost_ids:
  assumes "sortPost xs ys"
  shows "map optID ys = sort (map optID xs)"
proof -
  have "mset (map optID ys) = mset (map optID xs)"
    using sortPost_mset [OF assms] by simp
  then have "sort (map optID xs) = map optID ys"
    using sortPost_sorted [OF assms] by (rule properties_for_sort)
  then show ?thesis by simp
qed

subsection \<open>One option, encoded and parsed\<close>

lemma decodeValue_toBytes:
  assumes "wireTyped x" and "toBytes x = Inr b"
  shows "decodeValue (ID x) b = Inr (Value x)"
proof (cases "Value x")
  case (VUint32 v)
  then show ?thesis
    using assms by (auto simp add: wireTyped_def decodeValue_def decode_after_encode)
next
  case (VString s)
  then show ?thesis
    using assms by (auto simp add: wireTyped_def decodeValue_def OptionID_defs)
next
  case (VBytes s)
  then show ?thesis
    using assms by (auto simp add: wireTyped_def decodeValue_def)
qed (use assms in \<open>simp_all add: wireTyped_def\<close>)

lemma uint_word_of_int8: "uint (word_of_int k :: 8 word) = take_bit 8 k"
  by (simp add: uint_word_of_int_eq)

lemma parseOptions_step_short:
  assumes "0 \<le> uint i - prev" and "uint i - prev \<le> 15" and "length b \<le> 14"
    and "decodeValue i b = Inr v"
  shows "parseOptions (Suc n) prev
           ((push_bit 4 (word_of_int (uint i - prev)) OR word_of_nat (length b)) # b @ rest)
         = (case parseOptions n (uint i) rest of
              Inl f \<Rightarrow> Inl f
            | Inr (os, p) \<Rightarrow> Inr (\<lparr>ID = i, Value = v\<rparr> # os, p))"
proof -
  define h :: "8 word" where "h = push_bit 4 (word_of_int (uint i - prev)) OR word_of_nat (length b)"
  have l16: "length b < 16" using assms(3) by simp
  have d: "uint (drop_bit 4 h) = uint i - prev"
    unfolding h_def using assms(1,2) l16 by (rule opt_hdr_delta)
  have l: "unat (h AND 15) = length b"
    unfolding h_def using l16 by (rule opt_hdr_len)
  show ?thesis
    unfolding h_def [symmetric]
    using assms(3,4) by (simp add: d l Let_def)
qed

lemma parseOptions_step_long:
  assumes "0 \<le> uint i - prev" and "uint i - prev \<le> 15" and "16 \<le> length b" and "length b \<le> 270"
    and "decodeValue i b = Inr v"
  shows "parseOptions (Suc n) prev
           ((push_bit 4 (word_of_int (uint i - prev)) OR 15)
              # word_of_int (int (length b) - 15) # b @ rest)
         = (case parseOptions n (uint i) rest of
              Inl f \<Rightarrow> Inl f
            | Inr (os, p) \<Rightarrow> Inr (\<lparr>ID = i, Value = v\<rparr> # os, p))"
proof -
  define h :: "8 word" where "h = push_bit 4 (word_of_int (uint i - prev)) OR 15"
  define e :: "8 word" where "e = word_of_int (int (length b) - 15)"
  have h': "h = push_bit 4 (word_of_int (uint i - prev)) OR word_of_nat 15"
    by (simp add: h_def)
  have d: "uint (drop_bit 4 h) = uint i - prev"
    unfolding h' using assms(1,2) by (rule opt_hdr_delta) simp
  have l: "unat (h AND 15) = 15"
    unfolding h' by (rule opt_hdr_len) simp
  have "uint e = take_bit 8 (int (length b) - 15)"
    unfolding e_def by (rule uint_word_of_int8)
  also have "\<dots> = int (length b) - 15"
    using assms(3,4) by (simp add: take_bit_int_eq_self)
  finally have "uint e = int (length b) - 15" .
  then have e: "unat e = length b - 15"
    by (simp add: unat_eq_nat_uint)
  show ?thesis
    unfolding h_def [symmetric] e_def [symmetric]
    using assms(3,5) by (simp add: d l e Let_def)
qed

lemma roundtrip_options:
  assumes "\<forall>x\<in>set xs. wireTyped x \<and> wireLenOK x"
    and "sorted (prev # map optID xs)"
    and "deltasOK prev (map optID xs)"
  shows "\<exists>ob. encodeOptions prev xs = Inr ob \<and>
           (\<forall>p. parseOptions (length xs) prev (ob @ p) = Inr (xs, p))"
  using assms
proof (induction xs arbitrary: prev)
  case Nil
  show ?case by simp
next
  case (Cons x xs)
  from Cons.prems(1) have wt: "wireTyped x" and wl: "wireLenOK x" by simp_all
  from wl obtain b where b: "toBytes x = Inr b" and b15: "length b \<noteq> 15" and b270: "length b \<le> 270"
    by (auto simp add: wireLenOK_def split: sum.splits)
  have dv: "decodeValue (ID x) b = Inr (Value x)"
    using wt b by (rule decodeValue_toBytes)
  have e: "optID x = uint (ID x)" by (simp add: optID_def)
  have d0: "0 \<le> uint (ID x) - prev"
    using Cons.prems(2) by (simp add: e)
  have d15: "uint (ID x) - prev \<le> 15"
    using Cons.prems(3) by (simp add: e)
  have "\<exists>ob. encodeOptions (uint (ID x)) xs = Inr ob \<and>
           (\<forall>p. parseOptions (length xs) (uint (ID x)) (ob @ p) = Inr (xs, p))"
  proof (rule Cons.IH)
    show "\<forall>x\<in>set xs. wireTyped x \<and> wireLenOK x" using Cons.prems(1) by simp
    show "sorted (uint (ID x) # map optID xs)" using Cons.prems(2) by (simp add: e)
    show "deltasOK (uint (ID x)) (map optID xs)" using Cons.prems(3) by (simp add: e)
  qed
  then obtain ob where ob: "encodeOptions (uint (ID x)) xs = Inr ob"
    and po: "\<And>p. parseOptions (length xs) (uint (ID x)) (ob @ p) = Inr (xs, p)"
    by blast
  have x: "\<lparr>ID = ID x, Value = Value x\<rparr> = x" by simp
  show ?case
  proof (cases "length b \<le> 14")
    case True
    have enc: "encodeOptions prev (x # xs)
        = Inr (((push_bit 4 (word_of_int (uint (ID x) - prev)) OR word_of_nat (length b)) # b) @ ob)"
      using b ob d15 True by (simp add: Let_def)
    have "parseOptions (length (x # xs)) prev
        ((((push_bit 4 (word_of_int (uint (ID x) - prev)) OR word_of_nat (length b)) # b) @ ob) @ p)
        = Inr (x # xs, p)" for p
      using parseOptions_step_short [OF d0 d15 True dv, of "length xs" "ob @ p"] po [of p] x
      by simp
    with enc show ?thesis by blast
  next
    case False
    with b15 have long: "16 \<le> length b" by simp
    have enc: "encodeOptions prev (x # xs)
        = Inr (((push_bit 4 (word_of_int (uint (ID x) - prev)) OR 15)
                 # word_of_int (int (length b) - 15) # b) @ ob)"
      using b ob d15 long by (simp add: Let_def)
    have "parseOptions (length (x # xs)) prev
        ((((push_bit 4 (word_of_int (uint (ID x) - prev)) OR 15)
                 # word_of_int (int (length b) - 15) # b) @ ob) @ p)
        = Inr (x # xs, p)" for p
      using parseOptions_step_long [OF d0 d15 long b270 dv, of "length xs" "ob @ p"] po [of p] x
      by simp
    with enc show ?thesis by blast
  qed
qed

lemma encodeMessage_Inr:
  assumes "length (opts m) \<le> 14" and "encodeOptions 0 (srt (opts m)) = Inr ob"
  shows "encodeMessage srt m =
      Inr ((push_bit 6 1 OR push_bit 4 (Type m) OR word_of_nat (15 AND length (opts m))) # Code m
           # PutUint16 (MessageID m) ! 0 # PutUint16 (MessageID m) ! 1 # ob @ Payload m)"
  using assms by (simp add: encodeMessage_def Let_def)

lemma toBytes_Inr: "Value x \<noteq> VOther \<Longrightarrow> \<exists>b. toBytes x = Inr b"
  by (cases "Value x") simp_all

lemma encodeOptions_gap:
  assumes "\<forall>x\<in>set xs. Value x \<noteq> VOther" and "\<not> deltasOK prev (map optID xs)"
  shows "encodeOptions prev xs = Inl (Error OptionGapTooLarge)"
  using assms
proof (induction xs arbitrary: prev)
  case Nil
  then show ?case by simp
next
  case (Cons x xs)
  from Cons.prems(1) obtain b where b: "toBytes x = Inr b"
    using toBytes_Inr [of x] by auto
  have e: "optID x = uint (ID x)" by (simp add: optID_def)
  show ?case
  proof (cases "15 < uint (ID x) - prev")
    case True
    with b show ?thesis by (simp add: Let_def)
  next
    case False
    with Cons.prems(2) have "\<not> deltasOK (uint (ID x)) (map optID xs)" by (simp add: e)
    with Cons.prems(1) have "encodeOptions (uint (ID x)) xs = Inl (Error OptionGapTooLarge)"
      by (intro Cons.IH) simp_all
    with b False show ?thesis by (simp add: Let_def)
  qed
qed

section \<open>Integer encoding\<close>

text \<open>
  Claim C5.  \<open>encodeInt\<close> is the minimal big-endian encoding of an unsigned 32-bit
  value: 0 gives no byte, 1..255 one byte (255 gives 0xFF), 256..65535 two bytes
  (256 gives 0x01 0x00), 65536..16777215 three bytes, anything larger four bytes; the
  first byte of a non-empty encoding is never zero, and the bytes read big-endian are
  the value.
\<close>

theorem encodeInt_minimal:
  "encodeInt 0 = [] \<and> encodeInt 255 = [0xFF] \<and> encodeInt 256 = [0x01, 0x00] \<and>
   (1 \<le> unat v \<and> unat v \<le> 255 \<longrightarrow> length (encodeInt v) = 1) \<and>
   (256 \<le> unat v \<and> unat v \<le> 65535 \<longrightarrow> length (encodeInt v) = 2) \<and>
   (65536 \<le> unat v \<and> unat v \<le> 16777215 \<longrightarrow> length (encodeInt v) = 3) \<and>
   (16777216 \<le> unat v \<longrightarrow> length (encodeInt v) = 4) \<and>
   (encodeInt v \<noteq> [] \<longrightarrow> hd (encodeInt v) \<noteq> 0) \<and>
   foldl (\<lambda>a b. 256 * a + unat b) 0 (encodeInt v) = unat v"
proof (intro conjI)
  show "encodeInt 0 = []" by (simp add: encodeInt_def)
  show "encodeInt 255 = [0xFF]" by (simp add: encodeInt_def)
  show "encodeInt 256 = [0x01, 0x00]" by (simp add: encodeInt_def PutUint16_def drop_bit_eq_div)
  show "1 \<le> unat v \<and> unat v \<le> 255 \<longrightarrow> length (encodeInt v) = 1"
    by (simp add: encodeInt_cases)
  show "256 \<le> unat v \<and> unat v \<le> 65535 \<longrightarrow> length (encodeInt v) = 2"
    by (simp add: encodeInt_cases)
  show "65536 \<le> unat v \<and> unat v \<le> 16777215 \<longrightarrow> length (encodeInt v) = 3"
    by (simp add: encodeInt_cases)
  show "16777216 \<le> unat v \<longrightarrow> length (encodeInt v) = 4"
    by (simp add: encodeInt_cases)
  show "encodeInt v \<noteq> [] \<longrightarrow> hd (encodeInt v) \<noteq> 0"
    using encodeInt_lead_aux by blast
  show "foldl (\<lambda>a b. 256 * a + unat b) 0 (encodeInt v) = unat v"
    by (rule encodeInt_value_aux)
qed

theorem encodeInt_minimal_witness:
  "length (encodeInt 200) = 1 \<and> length (encodeInt 65535) = 2 \<and>
   length (encodeInt 16777215) = 3 \<and> length (encodeInt 16777216) = 4 \<and>
   hd (encodeInt 16777215) \<noteq> 0"
proof -
  have "length (encodeInt 200) = 1" using encodeInt_minimal [of 200] by simp
  moreover have "length (encodeInt 65535) = 2" using encodeInt_minimal [of 65535] by simp
  moreover have "length (encodeInt 16777215) = 3 \<and> hd (encodeInt 16777215) \<noteq> 0"
    using encodeInt_minimal [of 16777215] by fastforce
  moreover have "length (encodeInt 16777216) = 4" using encodeInt_minimal [of 16777216] by simp
  ultimately show ?thesis by simp
qed

text \<open>
  Claim C10.  Decoding the minimal encoding gives the value back, for every unsigned
  32-bit value, zero and its empty encoding included; \<open>decodeInt\<close> does not panic
  there.
\<close>

theorem decodeInt_encodeInt: "decodeInt (encodeInt v) = Inr v"
  by (rule decode_after_encode)


section \<open>Header checks of parseMessage\<close>

text \<open>
  Claim C8.  An input shorter than 6 bytes fails with the "Short packet" error; an
  input of at least 6 bytes whose byte 0 has top two bits other than 1 fails with the
  "Invalid version" error; neither returns a message.
\<close>

theorem parseMessage_header_errors:
  "(length data < 6 \<longrightarrow>
      parseMessage data = Inl (Error ShortPacket) \<and> (\<forall>m. parseMessage data \<noteq> Inr m)) \<and>
   (6 \<le> length data \<and> drop_bit 6 (data ! 0) \<noteq> 1 \<longrightarrow>
      parseMessage data = Inl (Error InvalidVersion) \<and> (\<forall>m. parseMessage data \<noteq> Inr m))"
  by (simp add: parseMessage_def)

theorem parseMessage_header_errors_witness:
  "parseMessage [0x41, 1, 0, 7, 0xFF] = Inl (Error ShortPacket) \<and>
   parseMessage [0x81, 1, 0, 7, 0, 0] = Inl (Error InvalidVersion) \<and>
   parseMessage [0x01, 1, 0, 7, 0, 0] = Inl (Error InvalidVersion)"
  using parseMessage_header_errors [of "[0x41, 1, 0, 7, 0xFF]"]
    parseMessage_header_errors [of "[0x81, 1, 0, 7, 0, 0]"]
    parseMessage_header_errors [of "[0x01, 1, 0, 7, 0, 0]"]
  by (simp add: drop_bit_eq_div)

section \<open>The option-count limit\<close>

text \<open>
  Claim C6 as stated fails for \<open>parseMessage\<close>: the length and version checks come
  first, so an input whose count nibble is 15 can fail with another error.
\<close>

theorem TooManyoptions_counterexample:
  "(0x0F :: byte) AND 15 = 15 \<and>
   parseMessage [0x0F, 0, 0, 0, 0, 0] = Inl (Error InvalidVersion) \<and>
   (0x4F :: byte) AND 15 = 15 \<and>
   parseMessage [0x4F, 0, 0, 0, 0] = Inl (Error ShortPacket)"
  by (simp add: parseMessage_def drop_bit_eq_div)

text \<open>
  Claim C6, amended.  \<open>encodeMessage\<close> fails with \<open>TooManyoptions\<close> for every
  message with more than 14 options; \<open>parseMessage\<close> fails with the same error for
  every input of at least 6 bytes whose version bits are 1 and whose option-count
  nibble is 15.
\<close>

theorem TooManyoptions_amended:
  "(14 < length (opts m) \<longrightarrow> encodeMessage srt m = Inl (Error TooManyoptions)) \<and>
   (6 \<le> length data \<and> drop_bit 6 (data ! 0) = 1 \<and> data ! 0 AND 15 = 15 \<longrightarrow>
      parseMessage data = Inl (Error TooManyoptions))"
  by (simp add: encodeMessage_def parseMessage_def)

theorem TooManyoptions_amended_witness:
  "encodeMessage insertionSort
     \<lparr>Type = 0, Code = 1, MessageID = 7, Payload = [], opts = opt15\<rparr>
     = Inl (Error TooManyoptions) \<and>
   parseMessage [0x4F, 1, 0, 7, 0, 0] = Inl (Error TooManyoptions)"
  using TooManyoptions_amended [of "\<lparr>Type = 0, Code = 1, MessageID = 7, Payload = [], opts = opt15\<rparr>"
      insertionSort "[0x4F, 1, 0, 7, 0, 0]"]
  by (simp add: opt15_def drop_bit_eq_div)

section \<open>Payload pass-through\<close>

text \<open>
  Claim C9 as stated fails: with no option and a payload shorter than two bytes the
  encoding is shorter than the 6 bytes \<open>parseMessage\<close> insists on, and a \<open>Type\<close>
  with bit 3 set spills into the version bits.
\<close>

theorem payload_counterexample:
  "encodeMessage insertionSort msgEmpty = Inr [0x40, 1, 0, 7] \<and>
   parseMessage [0x40, 1, 0, 7] = Inl (Error ShortPacket) \<and>
   encodeMessage insertionSort msgOneByte = Inr [0x40, 1, 0, 7, 0] \<and>
   parseMessage [0x40, 1, 0, 7, 0] = Inl (Error ShortPacket) \<and>
   encodeMessage insertionSort msgType8 = Inr [0xC0, 1, 0, 7, 0, 0] \<and>
   parseMessage [0xC0, 1, 0, 7, 0, 0] = Inl (Error InvalidVersion)"
  by code_simp

text \<open>
  Claim C9, amended.  For every message with zero options, a payload of at least two
  bytes and a type whose bit 3 is clear (each of the four defined types is), encoding
  succeeds, decoding the result succeeds, and the decoded payload is the payload, byte
  for byte.
\<close>

theorem payload_roundtrip:
  assumes "opts m = []" and "2 \<le> length (Payload m)" and "\<not> bit (Type m) 3"
    and "sortPost (opts m) (srt (opts m))"
  shows "\<exists>bs m'. encodeMessage srt m = Inr bs \<and> parseMessage bs = Inr m' \<and>
           Payload m' = Payload m"
proof -
  have s: "srt [] = []" using assms(1,4) by (simp add: sortPost_Nil)
  have e: "encodeMessage srt m =
      Inr ((push_bit 6 1 OR push_bit 4 (Type m) OR word_of_nat (15 AND 0)) # Code m
           # PutUint16 (MessageID m) ! 0 # PutUint16 (MessageID m) ! 1 # Payload m)"
    using assms(1) s by (simp add: encodeMessage_def Let_def)
  have "parseMessage ((push_bit 6 1 OR push_bit 4 (Type m) OR word_of_nat (15 AND 0)) # Code m
           # PutUint16 (MessageID m) ! 0 # PutUint16 (MessageID m) ! 1 # Payload m)
      = Inr \<lparr>Type = drop_bit 4 (push_bit 6 1 OR push_bit 4 (Type m) OR word_of_nat (15 AND 0)) AND 3,
             Code = Code m, MessageID = MessageID m, Payload = Payload m, opts = []\<rparr>"
    using parseMessage_encoded [OF assms(3), of 0 "Payload m" "Code m" "MessageID m"] assms(2)
    by simp
  with e show ?thesis by (metis Message.select_convs(4))
qed

theorem payload_roundtrip_witness:
  "opts msgPayload = [] \<and> 2 \<le> length (Payload msgPayload) \<and> \<not> bit (Type msgPayload) 3 \<and>
   sortPost (opts msgPayload) (insertionSort (opts msgPayload)) \<and>
   (\<exists>bs m'. encodeMessage insertionSort msgPayload = Inr bs \<and> parseMessage bs = Inr m' \<and>
      Payload m' = [0, 1, 0, 0xFF])"
proof -
  have h1: "opts msgPayload = []" by code_simp
  have h2: "2 \<le> length (Payload msgPayload)" by code_simp
  have h3: "\<not> bit (Type msgPayload) 3" by code_simp
  have h4: "sortPost (opts msgPayload) (insertionSort (opts msgPayload))" by code_simp
  have p: "Payload msgPayload = [0, 1, 0, 0xFF]" by code_simp
  from payload_roundtrip [where m = msgPayload and srt = insertionSort, OF h1 h2 h3 h4] h1 h2 h3 h4 show ?thesis
    by (simp only: p simp_thms)
qed

section \<open>Panics of parseMessage\<close>

text \<open>
  Claim C3 does not hold of the code.  A length nibble of 15 in the last byte makes
  \<open>parseMessage\<close> read \<open>b[0]\<close> of an empty slice, and an integer-typed option
  longer than four bytes makes \<open>decodeInt\<close> slice \<open>tmp\<close> at a negative index:
  both are run-time panics, not returned errors.
\<close>

theorem parseMessage_panics:
  "parseMessage [0x42, 1, 0, 7, 0x10, 0x1F] = Inl (Panic IndexOutOfRange) \<and>
   parseMessage [0x41, 1, 0, 7, 0x15, 1, 2, 3, 4, 5] = Inl (Panic SliceBoundsOutOfRange)"
  by code_simp

section \<open>The length-extension boundary\<close>

text \<open>
  Claim C2 does not hold of the code at a value of exactly 15 bytes.  The test is
  \<open>len(b) > 15\<close>, so such a value gets the single byte \<open>delta<<4 | 15\<close> and no
  extension byte (14 bytes: single byte; 16 bytes: extension byte 1), and
  \<open>parseMessage\<close> then takes the first value byte for the extension.
\<close>

theorem length15_no_extension_byte:
  "encodeMessage insertionSort msgEtag14 = Inr ([0x41, 1, 0, 7, 0x4E] @ replicate 14 0x62 @ [0xAA]) \<and>
   encodeMessage insertionSort msgEtag15 = Inr ([0x41, 1, 0, 7, 0x4F] @ replicate 15 0x62 @ [0xAA]) \<and>
   encodeMessage insertionSort msgEtag16 = Inr ([0x41, 1, 0, 7, 0x4F, 1] @ replicate 16 0x62 @ [0xAA]) \<and>
   parseMessage ([0x41, 1, 0, 7, 0x4F] @ replicate 15 0x62 @ [0xAA]) = Inl (Error Truncated)"
  by code_simp

section \<open>The identifier gap\<close>

text \<open>
  Claim C4 as stated fails: the option count is checked before the gap, and
  \<open>toBytes\<close> runs before the gap test of the same option, so a message with a gap
  can fail in another way.
\<close>

theorem gap_counterexample:
  "\<not> deltasOK 0 (sort (map optID (opts msgGap15))) \<and>
   encodeMessage insertionSort msgGap15 = Inl (Error TooManyoptions) \<and>
   \<not> deltasOK 0 (sort (map optID (opts msgGapOther))) \<and>
   encodeMessage insertionSort msgGapOther = Inl (Panic InvalidOptionType)"
  by code_simp

text \<open>
  Claim C4, amended.  For every message with at most 14 options, all with a value of
  a type \<open>toBytes\<close> accepts, in which after sorting by identifier some option's
  identifier exceeds the previous one (initially 0) by more than 15,
  \<open>encodeMessage\<close> fails with \<open>OptionGapTooLarge\<close>; so do a message with the
  identifiers 1 and 21 and a message with the single identifier 21.
\<close>

theorem gap_amended:
  assumes "length (opts m) \<le> 14"
    and "sortPost (opts m) (srt (opts m))"
    and "\<forall>x \<in> set (opts m). Value x \<noteq> VOther"
    and "\<not> deltasOK 0 (sort (map optID (opts m)))"
  shows "encodeMessage srt m = Inl (Error OptionGapTooLarge)"
proof -
  have "\<forall>x\<in>set (srt (opts m)). Value x \<noteq> VOther"
    using assms(3) sortPost_set [OF assms(2)] by simp
  moreover have "\<not> deltasOK 0 (map optID (srt (opts m)))"
    using assms(4) by (simp only: sortPost_ids [OF assms(2)] simp_thms)
  ultimately have "encodeOptions 0 (srt (opts m)) = Inl (Error OptionGapTooLarge)"
    by (rule encodeOptions_gap)
  then show ?thesis using assms(1) by (simp add: encodeMessage_def Let_def)
qed

theorem gap_amended_witness:
  "map ID (opts msgGap1) = [21, 1] \<and> map ID (opts msgGap2) = [21] \<and>
   encodeMessage insertionSort msgGap1 = Inl (Error OptionGapTooLarge) \<and>
   encodeMessage insertionSort msgGap2 = Inl (Error OptionGapTooLarge)"
proof -
  have a1: "length (opts msgGap1) \<le> 14" by code_simp
  have a2: "sortPost (opts msgGap1) (insertionSort (opts msgGap1))" by code_simp
  have a3: "\<forall>x \<in> set (opts msgGap1). Value x \<noteq> VOther" by code_simp
  have a4: "\<not> deltasOK 0 (sort (map optID (opts msgGap1)))" by code_simp
  have b1: "length (opts msgGap2) \<le> 14" by code_simp
  have b2: "sortPost (opts msgGap2) (insertionSort (opts msgGap2))" by code_simp
  have b3: "\<forall>x \<in> set (opts msgGap2). Value x \<noteq> VOther" by code_simp
  have b4: "\<not> deltasOK 0 (sort (map optID (opts msgGap2)))" by code_simp
  have i: "map ID (opts msgGap1) = [21, 1] \<and> map ID (opts msgGap2) = [21]" by code_simp
  from gap_amended [where m = msgGap1 and srt = insertionSort, OF a1 a2 a3 a4]
    gap_amended [where m = msgGap2 and srt = insertionSort, OF b1 b2 b3 b4] i show ?thesis
    by (simp only: simp_thms)
qed

section \<open>Order of options with the same identifier\<close>

text \<open>
  Both arrangements of the example below meet the contract of \<open>sort.Sort\<close>.
\<close>

lemma msgPath_sortPost:
  "sortPost (opts msgPath) (shellSort (opts msgPath)) \<and>
   sortPost (opts msgPath) (insertionSort (opts msgPath))"
  by code_simp

text \<open>
  Claim C7 does not hold of the code.  \<open>sort.Sort\<close> is not a stable sort, and the
  tie-break of \<open>Less\<close> compares the positions the two options have at the moment
  of the call, not the positions the caller gave them, so it cannot restore the
  caller's order.  With seven options that start with the path segments "a" and "b",
  the gap pass of Go 1.6 to 1.18 swaps positions 0 and 6: the identifiers come out in
  non-decreasing order, and "b" is encoded before "a".  A plain insertion sort keeps
  "a" before "b".
\<close>

theorem sort_not_stable:
  "map (\<lambda>x. (ID x, Value x)) (opts msgPath) =
     [(9, VString [0x61]), (9, VString [0x62]), (1, VUint32 0), (2, VUint32 60),
      (4, VBytes [0x65]), (5, VString [0x68]), (7, VUint32 80)] \<and>
   encodeMessage shellSort msgPath =
     Inr [0x47, 1, 0, 7, 0x10, 0x11, 60, 0x21, 0x65, 0x11, 0x68, 0x21, 80, 0x21, 0x62, 0x01, 0x61] \<and>
   encodeMessage insertionSort msgPath =
     Inr [0x47, 1, 0, 7, 0x10, 0x11, 60, 0x21, 0x65, 0x11, 0x68, 0x21, 80, 0x21, 0x61, 0x01, 0x62]"
  by code_simp

section \<open>Round trip\<close>

text \<open>
  Claim C1 as stated fails in five ways: a value of exactly 15 bytes is misread, a
  message whose encoding is shorter than 6 bytes is rejected, a \<open>Type\<close> above 3
  does not fit its two bits, a value comes back with the dynamic type of its
  identifier rather than its own, and a value longer than 270 bytes has its length
  truncated to a byte.
\<close>

theorem roundtrip_counterexample:
  "encodeMessage insertionSort msgPath15 = Inr ([0x41, 1, 0, 7, 0x9F] @ replicate 15 0x61 @ [0xAA]) \<and>
   parseMessage ([0x41, 1, 0, 7, 0x9F] @ replicate 15 0x61 @ [0xAA]) = Inl (Error Truncated) \<and>
   encodeMessage insertionSort msgShort = Inr [0x41, 1, 0, 7, 0x10] \<and>
   parseMessage [0x41, 1, 0, 7, 0x10] = Inl (Error ShortPacket) \<and>
   encodeMessage insertionSort msgType4 = Inr [0x40, 1, 0, 7, 1, 2] \<and>
   parseMessage [0x40, 1, 0, 7, 1, 2]
     = Inr \<lparr>Type = 0, Code = 1, MessageID = 7, Payload = [1, 2], opts = []\<rparr> \<and>
   encodeMessage insertionSort msgIntAge = Inr [0x41, 1, 0, 7, 0x21, 60, 1, 2] \<and>
   parseMessage [0x41, 1, 0, 7, 0x21, 60, 1, 2]
     = Inr \<lparr>Type = 0, Code = 1, MessageID = 7, Payload = [1, 2],
            opts = [\<lparr>ID = MaxAge, Value = VUint32 60\<rparr>]\<rparr> \<and>
   encodeMessage insertionSort msgLong = Inr ([0x41, 1, 0, 7, 0x3F, 0] @ replicate 271 0x61) \<and>
   parseMessage ([0x41, 1, 0, 7, 0x3F, 0] @ replicate 271 0x61)
     = Inr \<lparr>Type = 0, Code = 1, MessageID = 7, Payload = replicate 256 0x61,
            opts = [\<lparr>ID = ProxyURI, Value = VString (replicate 15 0x61)\<rparr>]\<rparr>"
  by code_simp

text \<open>
  Claim C1, amended.  For every message with at most 14 options whose sorted
  identifier deltas are each at most 15 (starting from 0), whose type is one of the
  four defined values 0..3, and whose options each carry a value of the dynamic type
  \<open>parseMessage\<close> produces for the identifier (\<open>uint32\<close> for 1, 2, 7 and 12,
  \<open>string\<close> for 3, 5, 6, 8, 9 and 15, \<open>[]byte\<close> otherwise) with a wire length
  other than 15 and at most 270: \<open>encodeMessage\<close> succeeds and, when its output is at
  least 6 bytes long, \<open>parseMessage\<close> of the output succeeds and yields a message
  with the same type, code, message ID, payload and the same multiset of options.
\<close>

theorem roundtrip_amended:
  assumes "length (opts m) \<le> 14"
    and "sortPost (opts m) (srt (opts m))"
    and "deltasOK 0 (sort (map optID (opts m)))"
    and "Type m \<le> 3"
    and "\<forall>x \<in> set (opts m). wireTyped x \<and> wireLenOK x"
  shows "\<exists>bs. encodeMessage srt m = Inr bs \<and>
           (6 \<le> length bs \<longrightarrow>
              (\<exists>m'. parseMessage bs = Inr m' \<and> Type m' = Type m \<and> Code m' = Code m \<and>
                 MessageID m' = MessageID m \<and> Payload m' = Payload m \<and>
                 mset (opts m') = mset (opts m)))"
proof -
  define ys where "ys = srt (opts m)"
  have sp: "sortPost (opts m) ys" using assms(2) by (simp add: ys_def)
  have len: "length ys = length (opts m)" using sp by (rule sortPost_length)
  have wf: "\<forall>x\<in>set ys. wireTyped x \<and> wireLenOK x"
    using assms(5) sortPost_set [OF sp] by simp
  have ids: "map optID ys = sort (map optID (opts m))" using sp by (rule sortPost_ids)
  have dl: "deltasOK 0 (map optID ys)" using assms(3) by (simp only: ids)
  have "\<forall>i \<in> set (map optID ys). 0 \<le> i" by (simp add: optID_def)
  then have so: "sorted (0 # map optID ys)"
    using sortPost_sorted [OF sp] by simp
  from roundtrip_options [OF wf so dl]
  obtain ob where ob: "encodeOptions 0 ys = Inr ob"
    and po: "\<And>p. parseOptions (length ys) 0 (ob @ p) = Inr (ys, p)" by blast
  define H :: "8 word" where
    "H = push_bit 6 1 OR push_bit 4 (Type m) OR word_of_nat (15 AND length (opts m))"
  define bs where
    "bs = H # Code m # PutUint16 (MessageID m) ! 0 # PutUint16 (MessageID m) ! 1 # ob @ Payload m"
  have enc: "encodeMessage srt m = Inr bs"
    unfolding bs_def H_def using assms(1) ob [unfolded ys_def] by (rule encodeMessage_Inr)
  have dec: "\<exists>m'. parseMessage bs = Inr m' \<and> Type m' = Type m \<and> Code m' = Code m \<and>
                 MessageID m' = MessageID m \<and> Payload m' = Payload m \<and>
                 mset (opts m') = mset (opts m)" if "6 \<le> length bs"
  proof -
    have two: "2 \<le> length (ob @ Payload m)" using that by (simp add: bs_def)
    have ty: "drop_bit 4 H AND 3 = Type m"
      unfolding H_def using assms(4) by (rule msg_hdr_type)
    have "parseMessage bs =
        Inr \<lparr>Type = drop_bit 4 H AND 3, Code = Code m, MessageID = MessageID m,
             Payload = Payload m, opts = ys\<rparr>"
      unfolding bs_def H_def
      using parseMessage_encoded [OF type_le3_bit3 [OF assms(4)] assms(1) two,
          of "Code m" "MessageID m"] po [of "Payload m"]
      by (simp add: len H_def)
    then show ?thesis
      using ty sortPost_mset [OF sp] by simp
  qed
  from enc dec show ?thesis by blast
qed

theorem roundtrip_amended_witness:
  "length (opts msgRT) \<le> 14 \<and>
   sortPost (opts msgRT) (insertionSort (opts msgRT)) \<and>
   deltasOK 0 (sort (map optID (opts msgRT))) \<and>
   Type msgRT \<le> 3 \<and>
   list_all (\<lambda>x. wireTyped x \<and> wireLenOK x) (opts msgRT) \<and>
   encodeMessage insertionSort msgRT =
     Inr ([0x55, 2, 0x12, 0x34, 0x11, 50, 0x12, 2, 0x58, 0x2F, 1] @ replicate 16 0x77
          @ [0x51, 0x61, 0x01, 0x62, 0x68, 0, 0x69]) \<and>
   (\<exists>m'. parseMessage ([0x55, 2, 0x12, 0x34, 0x11, 50, 0x12, 2, 0x58, 0x2F, 1] @ replicate 16 0x77
          @ [0x51, 0x61, 0x01, 0x62, 0x68, 0, 0x69]) = Inr m' \<and>
      Type m' = Type msgRT \<and> Code m' = Code msgRT \<and> MessageID m' = MessageID msgRT \<and>
      Payload m' = Payload msgRT \<and> mset (opts m') = mset (opts msgRT))"
proof -
  define bytes :: "byte list" where
    "bytes = [0x55, 2, 0x12, 0x34, 0x11, 50, 0x12, 2, 0x58, 0x2F, 1] @ replicate 16 0x77
          @ [0x51, 0x61, 0x01, 0x62, 0x68, 0, 0x69]"
  have h1: "length (opts msgRT) \<le> 14" by code_simp
  have h2: "sortPost (opts msgRT) (insertionSort (opts msgRT))" by code_simp
  have h3: "deltasOK 0 (sort (map optID (opts msgRT)))" by code_simp
  have h4: "Type msgRT \<le> 3" by code_simp
  have h5: "\<forall>x \<in> set (opts msgRT). wireTyped x \<and> wireLenOK x" by code_simp
  have h5': "list_all (\<lambda>x. wireTyped x \<and> wireLenOK x) (opts msgRT)"
    using h5 by (simp only: list_all_iff)
  have enc: "encodeMessage insertionSort msgRT = Inr bytes"
    unfolding bytes_def by code_simp
  have six: "6 \<le> length bytes" by (simp add: bytes_def)
  from roundtrip_amended [where m = msgRT and srt = insertionSort, OF h1 h2 h3 h4 h5] enc six
  have "\<exists>m'. parseMessage bytes = Inr m' \<and>
      Type m' = Type msgRT \<and> Code m' = Code msgRT \<and> MessageID m' = MessageID msgRT \<and>
      Payload m' = Payload msgRT \<and> mset (opts m') = mset (opts msgRT)"
    by auto
  with h1 h2 h3 h4 h5' enc show ?thesis
    unfolding bytes_def by (simp only: simp_thms)
qed

end
